theory Spec2Isabelle
  imports Main
begin

section \<open>The process: console, exit status, database connection, HTTP listener\<close>

text \<open>
  \<^verbatim>\<open>config/db.js\<close> and \<^verbatim>\<open>app.js\<close> act on the Node process: they write to the
  console, call \<^verbatim>\<open>process.exit\<close>, open the Mongoose connection and bind the HTTP
  listener. The record below is that part of the process; every function takes it and
  returns it updated.
\<close>

text \<open>
  The database connection as the program sees it: \<^verbatim>\<open>mongoose.connect\<close> not called,
  called with \<^verbatim>\<open>connectDB\<close> waiting at its \<^verbatim>\<open>await\<close>, or \<^verbatim>\<open>connectDB\<close> resumed
  with the connection open to a host.
\<close>

datatype connection = Disconnected | Connecting | ConnectedTo string

text \<open>
  The argument of \<^verbatim>\<open>app.listen\<close>: a value of \<^verbatim>\<open>process.env\<close> is a string, the
  fallback \<^verbatim>\<open>8080\<close> is a number.
\<close>

datatype port = PortStr string | PortNum nat

text \<open>
  The listener \<^verbatim>\<open>app.listen\<close> creates: not there, asked to bind, or bound and
  accepting connections. The port is the argument \<^verbatim>\<open>app.listen\<close> was given; the
  port 0 asks the system for any free port.
\<close>

datatype listener = NotListening | Binding port | Listening port

record process =
  console_log :: "string list"
  console_error :: "string list"
  exit_code :: "nat option"
  connection :: connection
  listener :: listener

definition init_process :: process where
  "init_process =
     \<lparr>console_log = [], console_error = [], exit_code = None,
      connection = Disconnected, listener = NotListening\<rparr>"

text \<open>
  What \<^verbatim>\<open>await mongoose.connect(...)\<close> settles to: fulfilled, after which
  \<^verbatim>\<open>mongoose.connection.host\<close> is the host, or rejected with an \<^verbatim>\<open>Error\<close> whose
  \<^verbatim>\<open>message\<close> is the string.
\<close>

datatype connect_outcome = Connected string | ConnectError string

text \<open>
  The state of the promise an \<^verbatim>\<open>async\<close> function returns. \<open>Abandoned\<close>: the process
  exited inside the function, so the promise never settles and no caller code runs again.
\<close>

datatype promise = Pending | Fulfilled | Rejected string | Abandoned

section \<open>config/db.js\<close>

text \<open>
  \<^verbatim>\<open>connectDB\<close> is an \<^verbatim>\<open>async\<close> function with one \<^verbatim>\<open>await\<close>. A call runs it up
  to the \<^verbatim>\<open>await\<close>: \<^verbatim>\<open>mongoose.connect(process.env.CLOUD_URI, {})\<close> is started
  and a pending promise is returned to the caller.
\<close>

definition connectDB_call :: "process \<Rightarrow> process \<times> promise" where
  "connectDB_call p = (p\<lparr>connection := Connecting\<rparr>, Pending)"

text \<open>
  The rest of the body runs when the awaited promise settles: the \<^verbatim>\<open>try\<close> branch logs
  the host, the \<^verbatim>\<open>catch\<close> branch logs \<^verbatim>\<open>`Error: ${error.message}`\<close> with
  \<^verbatim>\<open>console.error\<close> and calls \<^verbatim>\<open>process.exit(1)\<close>.
\<close>

fun connectDB_resume :: "connect_outcome \<Rightarrow> process \<Rightarrow> process \<times> promise" where
  "connectDB_resume (Connected host) p =
     (p\<lparr>console_log := console_log p @ [''MongoDB connected: '' @ host],
        connection := ConnectedTo host\<rparr>, Fulfilled)"
| "connectDB_resume (ConnectError msg) p =
     (p\<lparr>console_error := console_error p @ [''Error: '' @ msg],
        exit_code := Some 1\<rparr>, Abandoned)"

section \<open>app.js\<close>

text \<open>
  \<^verbatim>\<open>process.env.PORT || 8080\<close>: an unset variable and the empty string are falsy.
  \<open>env\<close> is \<^verbatim>\<open>process.env\<close> once \<^verbatim>\<open>dotenv\<close> has loaded the \<^verbatim>\<open>.env\<close> file.
\<close>

definition PORT :: "(string \<rightharpoonup> string) \<Rightarrow> port" where
  "PORT env = (case env ''PORT'' of
                 None \<Rightarrow> PortNum 8080
               | Some s \<Rightarrow> if s = [] then PortNum 8080 else PortStr s)"

text \<open>The template literal \<^verbatim>\<open>`${PORT}`\<close>: a string as it is, a number in decimal.\<close>

fun show_nat :: "nat \<Rightarrow> string" where
  "show_nat n =
     (if n < 10 then [char_of (48 + n)]
      else show_nat (n div 10) @ [char_of (48 + n mod 10)])"

fun show_port :: "port \<Rightarrow> string" where
  "show_port (PortStr s) = s"
| "show_port (PortNum n) = show_nat n"

text \<open>
  \<^verbatim>\<open>app.listen\<close> checks its argument before it binds. A number, or a string that
  converts to a number that is not negative, is a port and must be an integer from 0 to
  65535; a blank string converts to 0 and is refused as a port. Any other string is
  taken for the path of a pipe. A string of decimal digits converts to the number it
  writes. For the other strings \<open>other\<close> says whether \<^verbatim>\<open>app.listen\<close> accepts them
  (\<^verbatim>\<open>'0x50'\<close> as the port 80 and \<^verbatim>\<open>'abc'\<close> as a pipe, but not \<^verbatim>\<open>'1.5'\<close>): that
  is Node's conversion of strings to numbers, which is not in the repository's files.
\<close>

definition blank :: "string \<Rightarrow> bool" where
  "blank s = list_all (\<lambda>c. (of_char c :: nat) = 32 \<or> (9 \<le> (of_char c :: nat) \<and> (of_char c :: nat) \<le> 13)) s"

definition decimal_digits :: "string \<Rightarrow> bool" where
  "decimal_digits s =
     (s \<noteq> [] \<and> list_all (\<lambda>c. 48 \<le> (of_char c :: nat) \<and> (of_char c :: nat) \<le> 57) s)"

definition decimal_value :: "string \<Rightarrow> nat" where
  "decimal_value s = foldl (\<lambda>n c. 10 * n + (of_char c - 48)) 0 s"

fun listen_accepts :: "(string \<Rightarrow> bool) \<Rightarrow> port \<Rightarrow> bool" where
  "listen_accepts other (PortNum n) = (n \<le> 65535)"
| "listen_accepts other (PortStr s) =
     (if blank s then False
      else if decimal_digits s then decimal_value s \<le> 65535
      else other s)"

text \<open>
  The module body, run once at startup: \<^verbatim>\<open>connectDB()\<close> is called and its promise
  dropped, \<^verbatim>\<open>PORT\<close> is computed, \<^verbatim>\<open>app.listen(PORT, callback)\<close> is called. When
  \<^verbatim>\<open>app.listen\<close> accepts the argument the listener is asked to bind it. Otherwise it
  throws \<^verbatim>\<open>ERR_SOCKET_BAD_PORT\<close>; nothing catches it, so the process reports the
  error and exits with code 1, with no listener.
\<close>

definition app_main :: "(string \<Rightarrow> bool) \<Rightarrow> (string \<rightharpoonup> string) \<Rightarrow> process \<Rightarrow> process" where
  "app_main other env p =
     (let p1 = fst (connectDB_call p) in
      if listen_accepts other (PORT env) then p1\<lparr>listener := Binding (PORT env)\<rparr>
      else p1\<lparr>console_error := console_error p1 @ [''ERR_SOCKET_BAD_PORT''],
              exit_code := Some 1\<rparr>)"

text \<open>
  After the module body the event loop delivers what is pending: the outcome of the
  bind and the settling of \<^verbatim>\<open>mongoose.connect\<close>, which resumes \<^verbatim>\<open>connectDB\<close>. When
  the bind succeeds the listener accepts connections and the callback of
  \<^verbatim>\<open>app.listen\<close> logs the port. When it fails (the port is taken, say) there is no
  listener; what becomes of the process then is Express's handling of the listener's
  \<^verbatim>\<open>error\<close> event, \<open>on_error\<close>, which is not in the repository's files. A process
  that has exited handles nothing more.
\<close>

datatype event = ServerListening | BindFailed | DbSettled connect_outcome

fun step :: "(string \<rightharpoonup> string) \<Rightarrow> (process \<Rightarrow> process) \<Rightarrow> event \<Rightarrow> process \<Rightarrow> process" where
  "step env on_error ev p =
     (if exit_code p \<noteq> None then p
      else case ev of
        ServerListening \<Rightarrow>
          (case listener p of
             Binding port \<Rightarrow>
               p\<lparr>console_log := console_log p @ [''Server is running on port '' @ show_port (PORT env)],
                 listener := Listening port\<rparr>
           | _ \<Rightarrow> p)
      | BindFailed \<Rightarrow>
          (case listener p of
             Binding port \<Rightarrow> on_error (p\<lparr>listener := NotListening\<rparr>)
           | _ \<Rightarrow> p)
      | DbSettled out \<Rightarrow> fst (connectDB_resume out p))"

section \<open>README-auth.md: the user model, registration, tokens\<close>

text \<open>
  A stored user document of \<^verbatim>\<open>userSchema\<close>: \<^verbatim>\<open>_id\<close>, \<^verbatim>\<open>username\<close> (required,
  unique), \<^verbatim>\<open>password\<close> (required; the \<^verbatim>\<open>pre('save')\<close> hook stores its bcrypt hash),
  \<^verbatim>\<open>role\<close> (enum \<^verbatim>\<open>['admin', 'user']\<close>, default \<^verbatim>\<open>'user'\<close>).
\<close>

record user =
  uid :: nat
  username :: string
  password :: string
  role :: string

definition role_enum :: "string list" where
  "role_enum = [''admin'', ''user'']"

text \<open>The fields \<^verbatim>\<open>register\<close> destructures from \<^verbatim>\<open>req.body\<close>; \<open>None\<close> is an absent field.\<close>

record register_body =
  body_username :: "string option"
  body_password :: "string option"
  body_role :: "string option"

text \<open>
  The payload \<^verbatim>\<open>generateToken\<close> signs: \<^verbatim>\<open>{ id: user._id, role: user.role }\<close>. The
  signature and the one-hour expiry are not part of the model.
\<close>

record token =
  tok_id :: nat
  tok_role :: string

definition generateToken :: "user \<Rightarrow> token" where
  "generateToken u = \<lparr>tok_id = uid u, tok_role = role u\<rparr>"

datatype save_error = ValidationError string | DuplicateKey string

datatype body = TokenBody token | MessageBody save_error

datatype response = Response nat body

text \<open>
  \<^verbatim>\<open>new User({ username, password, role })\<close> followed by \<^verbatim>\<open>user.save()\<close>: the
  schema's default fills an absent role; validation rejects a missing or empty required
  string and a role outside the enum; the \<^verbatim>\<open>pre('save')\<close> hook hashes the password
  (\<open>hash\<close> stands for \<^verbatim>\<open>bcrypt.hash(_, 10)\<close>); the unique index rejects a username
  already stored. \<open>new_id\<close> is the \<^verbatim>\<open>_id\<close> the driver generates.
\<close>

definition required :: "string option \<Rightarrow> bool" where
  "required v = (case v of None \<Rightarrow> False | Some s \<Rightarrow> s \<noteq> [])"

definition save :: "(string \<Rightarrow> string) \<Rightarrow> nat \<Rightarrow> user list \<Rightarrow> register_body \<Rightarrow> save_error + user" where
  "save hash new_id users b =
     (let r = (case body_role b of None \<Rightarrow> ''user'' | Some r \<Rightarrow> r) in
      if \<not> required (body_username b) then Inl (ValidationError ''username'')
      else if \<not> required (body_password b) then Inl (ValidationError ''password'')
      else if r \<notin> set role_enum then Inl (ValidationError ''role'')
      else if the (body_username b) \<in> set (map username users)
        then Inl (DuplicateKey ''username'')
      else Inr \<lparr>uid = new_id, username = the (body_username b),
                password = hash (the (body_password b)), role = r\<rparr>)"

text \<open>
  \<^verbatim>\<open>exports.register\<close>: no middleware runs before it and it reads nothing but the body.
  A saved user is answered with 201 and its token, a failed save with 400 and the error.
\<close>

definition register :: "(string \<Rightarrow> string) \<Rightarrow> nat \<Rightarrow> user list \<Rightarrow> register_body \<Rightarrow> user list \<times> response" where
  "register hash new_id users b =
     (case save hash new_id users b of
        Inr u \<Rightarrow> (users @ [u], Response 201 (TokenBody (generateToken u)))
      | Inl e \<Rightarrow> (users, Response 400 (MessageBody e)))"

section \<open>README-auth.md: the middleware\<close>

text \<open>
  What a middleware sees of a request: the \<^verbatim>\<open>Authorization\<close> header, \<^verbatim>\<open>req.user\<close>
  (set by \<^verbatim>\<open>authenticate\<close>) and the route parameters.
\<close>

record request =
  authorization :: "string option"
  req_user :: "token option"
  req_params :: "(string \<times> string) list"

text \<open>
  A middleware ends in one of three ways: it calls \<^verbatim>\<open>next()\<close>, it sends a response
  with a status and a message, or it throws.
\<close>

datatype outcome = Next request | Responded nat string | Threw string

text \<open>
  \<^verbatim>\<open>authenticate\<close>: \<^verbatim>\<open>req.header('Authorization')?.replace('Bearer ', '')\<close>, 401
  without a token, 400 when \<^verbatim>\<open>jwt.verify\<close> throws, else \<^verbatim>\<open>req.user = decoded\<close>.
  \<open>verify\<close> stands for \<^verbatim>\<open>jwt.verify(_, process.env.JWT_SECRET)\<close>.
\<close>

fun strip_bearer :: "string \<Rightarrow> string" where
  "strip_bearer s =
     (if take 7 s = ''Bearer '' then drop 7 s
      else case s of [] \<Rightarrow> [] | c # cs \<Rightarrow> c # strip_bearer cs)"

definition authenticate :: "(string \<Rightarrow> token option) \<Rightarrow> request \<Rightarrow> outcome" where
  "authenticate verify req =
     (case authorization req of
        None \<Rightarrow> Responded 401 ''Access denied''
      | Some h \<Rightarrow>
          if strip_bearer h = [] then Responded 401 ''Access denied''
          else case verify (strip_bearer h) of
                 None \<Rightarrow> Responded 400 ''Invalid token''
               | Some decoded \<Rightarrow> Next (req\<lparr>req_user := (Some decoded)\<rparr>))"

text \<open>
  \<^verbatim>\<open>authorize(roles)\<close>: 403 \<^verbatim>\<open>Forbidden\<close> unless \<^verbatim>\<open>roles.includes(req.user.role)\<close>.
  Reading \<^verbatim>\<open>.role\<close> of an undefined \<^verbatim>\<open>req.user\<close> throws a \<^verbatim>\<open>TypeError\<close>.
\<close>

definition authorize :: "string list \<Rightarrow> request \<Rightarrow> outcome" where
  "authorize roles req =
     (case req_user req of
        None \<Rightarrow> Threw ''TypeError''
      | Some u \<Rightarrow>
          if tok_role u \<notin> set roles then Responded 403 ''Forbidden'' else Next req)"

text \<open>
  A protected route, \<^verbatim>\<open>router.post('/', authenticate, authorize(['admin']), handler)\<close>:
  \<^verbatim>\<open>authorize\<close> runs on the request \<^verbatim>\<open>authenticate\<close> passed on.
\<close>

definition protected :: "(string \<Rightarrow> token option) \<Rightarrow> string list \<Rightarrow> request \<Rightarrow> outcome" where
  "protected verify roles req =
     (case authenticate verify req of
        Next req' \<Rightarrow> authorize roles req'
      | out \<Rightarrow> out)"

section \<open>The Reference Resolver\<close>

text \<open>
  Modelled from the spec: the Reference Resolver (\<^verbatim>\<open>resolve\<close>) and its Storage
  collaborator (\<^verbatim>\<open>getById\<close>, \<^verbatim>\<open>getBatch\<close>). The repository only calls Mongoose's
  \<^verbatim>\<open>populate\<close> (\<^verbatim>\<open>User.findById(id).populate('posts')\<close> in README.md); the
  function that expands references is not among its files. The definitions of this
  section follow sections 3, 4.1, 6 and 7 of the specification. References are taken to
  name declared collections (the invariant of section 3), the paths of a call are
  expanded one after the other in their order, and timeouts and cancellation, which
  are about real time, are left out.
\<close>

text \<open>
  Modelled from the spec: a value of a document field. A stored document holds
  primitives, embedded documents, references (target collection, target identifier)
  and ordered sequences. An expanded copy also holds, in the place of a reference, the
  target document, the marker of a missing target or the marker of a target already
  being expanded.
\<close>

datatype val =
    Prim string
  | Embedded "(string \<times> val) list"
  | Ref string nat
  | Seq "val list"
  | Expanded string nat "(string \<times> val) list"
  | UnresolvedReference string nat
  | AlreadyExpanding string nat

type_synonym fields = "(string \<times> val) list"

text \<open>
  Modelled from the spec: a document of a collection, with the identifier the
  collection gave it.
\<close>

record document =
  doc_coll :: string
  doc_id :: nat
  doc_fields :: fields

text \<open>
  Modelled from the spec: Storage. \<open>None\<close> is \<^verbatim>\<open>NotFound\<close>; \<^verbatim>\<open>getBatch\<close> answers
  every identifier it is asked for.
\<close>

type_synonym storage = "string \<Rightarrow> nat \<Rightarrow> fields option"

definition getById :: "storage \<Rightarrow> string \<Rightarrow> nat \<Rightarrow> fields option" where
  "getById st c i = st c i"

definition getBatch :: "storage \<Rightarrow> string \<Rightarrow> nat list \<Rightarrow> (nat \<times> fields option) list" where
  "getBatch st c ids = map (\<lambda>i. (i, getById st c i)) ids"

text \<open>
  Modelled from the spec: what a \<^verbatim>\<open>resolve\<close> call can touch, the stored documents
  and the record of the batched lookups issued so far (collection, identifiers asked).
\<close>

record world =
  stored :: storage
  lookups :: "(string \<times> nat list) list"

text \<open>
  Modelled from the spec: issuing one batched lookup records it and returns Storage's
  answer.
\<close>

definition issue :: "world \<Rightarrow> string \<Rightarrow> nat list \<Rightarrow> world \<times> (nat \<times> fields option) list" where
  "issue w c ids = (w\<lparr>lookups := lookups w @ [(c, ids)]\<rparr>, getBatch (stored w) c ids)"

text \<open>
  Modelled from the spec: the declared type of a field, per collection; a path must
  name a field declared a reference or a sequence of references.
\<close>

datatype ftype = TPrim | TEmbedded | TRef string | TRefSeq string

type_synonym schema = "string \<Rightarrow> string \<Rightarrow> ftype option"

text \<open>
  Modelled from the spec: a path specification, the field names of the path
  (\<^verbatim>\<open>"bestFriend.bestFriend"\<close> is two segments) and the optional projection.
\<close>

record pathspec =
  segments :: "string list"
  projection :: "string list option"

datatype error = ResolutionError

text \<open>
  Modelled from the spec: a path resolves when each segment names a field declared a
  reference or a sequence of references, the next segment being read in the target
  collection. The empty path is malformed.
\<close>

fun valid_path :: "schema \<Rightarrow> string \<Rightarrow> string list \<Rightarrow> bool" where
  "valid_path sch c [] = False"
| "valid_path sch c (s # rest) =
     (case sch c s of
        Some (TRef t) \<Rightarrow> rest = [] \<or> valid_path sch t rest
      | Some (TRefSeq t) \<Rightarrow> rest = [] \<or> valid_path sch t rest
      | _ \<Rightarrow> False)"

text \<open>
  Modelled from the spec: a document is a mapping from field names to values, kept as
  an association list. \<open>map_field\<close> rewrites the value of one field, \<open>collect_field\<close>
  gathers references under it.
\<close>

definition map_field :: "string \<Rightarrow> (val \<Rightarrow> val) \<Rightarrow> fields \<Rightarrow> fields" where
  "map_field s f flds = map (\<lambda>kv. if fst kv = s then (fst kv, f (snd kv)) else kv) flds"

definition collect_field :: "string \<Rightarrow> (val \<Rightarrow> (string \<times> nat) list) \<Rightarrow> fields \<Rightarrow> (string \<times> nat) list" where
  "collect_field s f flds = concat (map (\<lambda>kv. if fst kv = s then f (snd kv) else []) flds)"

text \<open>
  Modelled from the spec: the references found where a path ends, in their order and
  with their repetitions. \<open>chain\<close> holds the (collection, id) pairs being expanded
  above the position; a reference to one of them is not looked up.
\<close>

fun collect :: "string list \<Rightarrow> (string \<times> nat) list \<Rightarrow> val \<Rightarrow> (string \<times> nat) list" where
  "collect segs chain (Seq vs) = concat (map (collect segs chain) vs)"
| "collect [] chain (Ref c i) = (if (c, i) \<in> set chain then [] else [(c, i)])"
| "collect (s # rest) chain (Expanded c i flds) =
     concat (map (\<lambda>kv. if fst kv = s then collect rest ((c, i) # chain) (snd kv) else []) flds)"
| "collect segs chain v = []"

text \<open>
  Modelled from the spec: the same for the document a call resolves; it is the first
  pair of every chain.
\<close>

fun collect_doc :: "string list \<Rightarrow> document \<Rightarrow> (string \<times> nat) list" where
  "collect_doc [] d = []"
| "collect_doc (s # rest) d =
     collect_field s (collect rest [(doc_coll d, doc_id d)]) (doc_fields d)"

text \<open>
  Modelled from the spec: one batch per distinct target collection, asking for the
  distinct identifiers referenced in it.
\<close>

definition batches :: "(string \<times> nat) list \<Rightarrow> (string \<times> nat list) list" where
  "batches refs =
     map (\<lambda>c. (c, remdups (map snd (filter (\<lambda>r. fst r = c) refs)))) (remdups (map fst refs))"

text \<open>Modelled from the spec: the batches are issued one after the other.\<close>

fun fetch :: "world \<Rightarrow> (string \<times> nat list) list \<Rightarrow> world \<times> ((string \<times> nat) \<times> fields option) list" where
  "fetch w [] = (w, [])"
| "fetch w ((c, ids) # bs) =
     (let (w1, found) = issue w c ids;
          (w2, more) = fetch w1 bs
      in (w2, map (\<lambda>(i, d). ((c, i), d)) found @ more))"

text \<open>Modelled from the spec: the projection keeps the named fields of a target.\<close>

definition project :: "string list option \<Rightarrow> fields \<Rightarrow> fields" where
  "project proj flds =
     (case proj of None \<Rightarrow> flds | Some keep \<Rightarrow> filter (\<lambda>kv. fst kv \<in> set keep) flds)"

text \<open>
  Modelled from the spec: the results spliced back into the positions the references
  were collected from: the target document (projected), the unresolved marker for a
  target that is not found, the already-expanding marker for a pair of the chain.
\<close>

fun splice_at :: "string list option \<Rightarrow> ((string \<times> nat) \<rightharpoonup> fields option) \<Rightarrow> string list \<Rightarrow> (string \<times> nat) list \<Rightarrow> val \<Rightarrow> val" where
  "splice_at proj res segs chain (Seq vs) = Seq (map (splice_at proj res segs chain) vs)"
| "splice_at proj res [] chain (Ref c i) =
     (if (c, i) \<in> set chain then AlreadyExpanding c i
      else case res (c, i) of
        None \<Rightarrow> Ref c i
      | Some None \<Rightarrow> UnresolvedReference c i
      | Some (Some flds) \<Rightarrow> Expanded c i (project proj flds))"
| "splice_at proj res (s # rest) chain (Expanded c i flds) =
     Expanded c i
       (map (\<lambda>kv. if fst kv = s then (fst kv, splice_at proj res rest ((c, i) # chain) (snd kv))
                  else kv) flds)"
| "splice_at proj res segs chain v = v"

text \<open>
  Modelled from the spec: the results spliced into a copy of the document a call
  resolves; the fields the path does not start at are copied as they are.
\<close>

fun splice_doc :: "string list option \<Rightarrow> ((string \<times> nat) \<rightharpoonup> fields option) \<Rightarrow> string list \<Rightarrow> document \<Rightarrow> document" where
  "splice_doc proj res [] d = d"
| "splice_doc proj res (s # rest) d =
     d\<lparr>doc_fields := map_field s (splice_at proj res rest [(doc_coll d, doc_id d)]) (doc_fields d)\<rparr>"

text \<open>
  Modelled from the spec: one level of a path. The references at the end of the prefix
  are collected, looked up in batches, and spliced into a copy of the document.
\<close>

definition expand_level :: "string list option \<Rightarrow> string list \<Rightarrow> world \<times> document \<Rightarrow> world \<times> document" where
  "expand_level proj pre wd =
     (let (w, d) = wd;
          (w', found) = fetch w (batches (collect_doc pre d))
      in (w', splice_doc proj (map_of found) pre d))"

text \<open>
  Modelled from the spec: a path is expanded level by level, the projection applying
  to the targets of its last segment.
\<close>

fun expand_from :: "string list option \<Rightarrow> string list \<Rightarrow> string list \<Rightarrow> world \<times> document \<Rightarrow> world \<times> document" where
  "expand_from proj pre [] wd = wd"
| "expand_from proj pre (s # rest) wd =
     expand_from proj (pre @ [s]) rest
       (expand_level (if rest = [] then proj else None) (pre @ [s]) wd)"

text \<open>Modelled from the spec: one path specification, from its first segment on.\<close>

definition resolve_path :: "pathspec \<Rightarrow> world \<times> document \<Rightarrow> world \<times> document" where
  "resolve_path p wd = expand_from (projection p) [] (segments p) wd"

text \<open>
  Modelled from the spec: \<^verbatim>\<open>resolve(document, paths)\<close>. Every path is checked before
  any lookup; an unknown or malformed path fails the whole call. Otherwise the paths are
  expanded in their order.
\<close>

definition resolve :: "schema \<Rightarrow> world \<Rightarrow> document \<Rightarrow> pathspec list \<Rightarrow> world \<times> (error + document)" where
  "resolve sch w d paths =
     (if list_all (\<lambda>p. valid_path sch (doc_coll d) (segments p)) paths
      then let (w', d') = fold resolve_path paths (w, d) in (w', Inr d')
      else (w, Inl ResolutionError))"

text \<open>
  Modelled from the spec: the fields the paths of a call cover, the first segment of
  each.
\<close>

definition heads :: "pathspec list \<Rightarrow> string set" where
  "heads paths = set (concat (map (\<lambda>p. take 1 (segments p)) paths))"

text \<open>
  Modelled from the spec: what a step of the Resolver leaves alone, with \<open>H\<close> the
  fields it may expand: the stored documents, the identity of the document, its field
  names in their order, and every field outside \<open>H\<close>.
\<close>

definition frame :: "string set \<Rightarrow> world \<times> document \<Rightarrow> world \<times> document \<Rightarrow> bool" where
  "frame H wd wd' =
     (stored (fst wd') = stored (fst wd) \<and>
      doc_coll (snd wd') = doc_coll (snd wd) \<and>
      doc_id (snd wd') = doc_id (snd wd) \<and>
      map fst (doc_fields (snd wd')) = map fst (doc_fields (snd wd)) \<and>
      filter (\<lambda>kv. fst kv \<notin> H) (doc_fields (snd wd')) =
        filter (\<lambda>kv. fst kv \<notin> H) (doc_fields (snd wd)))"

text \<open>
  Modelled from the spec: the positions a path ends at, in their order, each with the
  chain of (collection, id) pairs of the documents being expanded above it (the nearest
  first, the document of the call last) and the value that stands there.
\<close>

fun positions :: "string list \<Rightarrow> (string \<times> nat) list \<Rightarrow> val \<Rightarrow> ((string \<times> nat) list \<times> val) list" where
  "positions segs chain (Seq vs) = concat (map (positions segs chain) vs)"
| "positions [] chain v = [(chain, v)]"
| "positions (s # rest) chain (Expanded c i flds) =
     concat (map (\<lambda>kv. if fst kv = s then positions rest ((c, i) # chain) (snd kv) else []) flds)"
| "positions (s # rest) chain v = []"

fun doc_positions :: "string list \<Rightarrow> document \<Rightarrow> ((string \<times> nat) list \<times> val) list" where
  "doc_positions [] d = []"
| "doc_positions (s # rest) d =
     concat (map (\<lambda>kv. if fst kv = s then positions rest [(doc_coll d, doc_id d)] (snd kv) else [])
       (doc_fields d))"

text \<open>
  Modelled from the spec: what is asked of Storage for a position, the reference that
  stands there unless it is a pair of its chain, and what the results \<open>res\<close> put there.
\<close>

fun wanted :: "(string \<times> nat) list \<times> val \<Rightarrow> (string \<times> nat) list" where
  "wanted (ch, Ref c i) = (if (c, i) \<in> set ch then [] else [(c, i)])"
| "wanted (ch, v) = []"

fun place :: "string list option \<Rightarrow> ((string \<times> nat) \<rightharpoonup> fields option) \<Rightarrow> (string \<times> nat) list \<times> val \<Rightarrow> (string \<times> nat) list \<times> val" where
  "place proj res (ch, Ref c i) =
     (ch, if (c, i) \<in> set ch then AlreadyExpanding c i
          else case res (c, i) of
            None \<Rightarrow> Ref c i
          | Some None \<Rightarrow> UnresolvedReference c i
          | Some (Some flds) \<Rightarrow> Expanded c i (project proj flds))"
| "place proj res (ch, v) = (ch, v)"

text \<open>
  Modelled from the spec: the levels of a call in the order they are expanded: for each
  path, each of its prefixes, the projection going with the whole path.
\<close>

fun levels_from :: "string list option \<Rightarrow> string list \<Rightarrow> string list \<Rightarrow> (string list option \<times> string list) list" where
  "levels_from proj pre [] = []"
| "levels_from proj pre (s # rest) =
     (if rest = [] then proj else None, pre @ [s]) # levels_from proj (pre @ [s]) rest"

definition levels :: "pathspec list \<Rightarrow> (string list option \<times> string list) list" where
  "levels paths = concat (map (\<lambda>p. levels_from (projection p) [] (segments p)) paths)"

subsection \<open>The scenarios of the specification\<close>

text \<open>
  Modelled from the spec: the schema of the examples. A user has a name, a sequence of
  references to posts and a reference to a best friend.
\<close>

definition example_schema :: schema where
  "example_schema c f =
     (if c = ''User'' \<and> f = ''name'' then Some TPrim
      else if c = ''User'' \<and> f = ''posts'' then Some (TRefSeq ''Post'')
      else if c = ''User'' \<and> f = ''bestFriend'' then Some (TRef ''User'')
      else if c = ''Post'' \<and> f = ''title'' then Some TPrim
      else None)"

text \<open>
  Modelled from the spec: the end-to-end scenario. Storage holds the user Alice, who
  references the posts 10 and 11, and the post 10; there is no post 11.
\<close>

definition alice_fields :: fields where
  "alice_fields = [(''name'', Prim ''Alice''), (''posts'', Seq [Ref ''Post'' 10, Ref ''Post'' 11])]"

definition user1 :: document where
  "user1 = \<lparr>doc_coll = ''User'', doc_id = 1, doc_fields = alice_fields\<rparr>"

definition blog :: world where
  "blog = \<lparr>stored = (\<lambda>c i. if c = ''User'' \<and> i = 1 then Some alice_fields
                         else if c = ''Post'' \<and> i = 10 then Some [(''title'', Prim ''First Post'')]
                         else None),
           lookups = []\<rparr>"




text \<open>
  Modelled from the spec: a document with two reference fields into one collection. An
  author's posts and drafts both hold a reference to post 10.
\<close>

definition writer_schema :: schema where
  "writer_schema c f =
     (if c = ''Author'' \<and> (f = ''posts'' \<or> f = ''drafts'') then Some (TRefSeq ''Post'')
      else None)"

definition writer :: document where
  "writer = \<lparr>doc_coll = ''Author'', doc_id = 1,
             doc_fields = [(''posts'', Seq [Ref ''Post'' 10]), (''drafts'', Seq [Ref ''Post'' 10])]\<rparr>"

section \<open>config/db.js and app.js: startup\<close>

text \<open>
  C8: when \<^verbatim>\<open>mongoose.connect\<close> fails, \<^verbatim>\<open>connectDB\<close> writes the error's message to
  the error console and ends the process with exit code 1. Its caller gets a pending
  promise from the call and never sees the failure: the promise is never rejected,
  whatever the connection attempt settles to.
\<close>

theorem connectDB_failure_exits:
  "connectDB_resume (ConnectError msg) p =
     (p\<lparr>console_error := console_error p @ [''Error: '' @ msg], exit_code := Some 1\<rparr>, Abandoned)
   \<and> snd (connectDB_call p) = Pending
   \<and> snd (connectDB_resume out p) \<noteq> Rejected e"
  by (cases out) (simp_all add: connectDB_call_def)

text \<open>
  C9, as the claim states it, fails when \<^verbatim>\<open>PORT\<close> is set to the empty string: the
  variable is set, and the listener is asked to bind 8080.
\<close>

theorem app_listens_on_PORT_counterexample:
  "[''PORT'' \<mapsto> ''''] ''PORT'' = Some '''' \<and>
   listener (app_main (\<lambda>s. False) [''PORT'' \<mapsto> ''''] init_process) = Binding (PortNum 8080)"
  by (simp add: app_main_def PORT_def connectDB_call_def init_process_def)

text \<open>
  C9, amended: the module body of \<^verbatim>\<open>app.js\<close> calls \<^verbatim>\<open>app.listen\<close> without waiting
  for the database connection, which is still pending when the body ends, with the
  value of \<^verbatim>\<open>PORT\<close> when that is set to a non-empty string and with 8080 when it is
  unset or empty. When \<^verbatim>\<open>app.listen\<close> accepts that value (a port from 0 to 65535,
  or a string it takes for the path of a pipe) the listener is asked to bind it, and
  once the bind succeeds, the process still running, the server accepts connections
  while the connection is still pending. When it does not (\<^verbatim>\<open>'99999'\<close>, say)
  \<^verbatim>\<open>app.listen\<close> throws, and the process exits with code 1 and has no listener.
\<close>

theorem app_listens_without_waiting:
  "PORT env = (case env ''PORT'' of None \<Rightarrow> PortNum 8080
               | Some s \<Rightarrow> if s = [] then PortNum 8080 else PortStr s)
   \<and> connection (app_main other env p) = Connecting
   \<and> (listen_accepts other (PORT env) \<longrightarrow>
        listener (app_main other env p) = Binding (PORT env) \<and>
        exit_code (app_main other env p) = exit_code p \<and>
        (exit_code p = None \<longrightarrow>
           listener (step env on_error ServerListening (app_main other env p)) = Listening (PORT env) \<and>
           connection (step env on_error ServerListening (app_main other env p)) = Connecting))
   \<and> (\<not> listen_accepts other (PORT env) \<longrightarrow>
        listener (app_main other env p) = listener p \<and>
        exit_code (app_main other env p) = Some 1)"
  by (simp add: app_main_def PORT_def connectDB_call_def Let_def split: option.split)

theorem app_listens_without_waiting_witness:
  "listen_accepts (\<lambda>s. False) (PORT [''PORT'' \<mapsto> ''3000'']) \<and>
   listener (step [''PORT'' \<mapsto> ''3000''] id ServerListening
      (app_main (\<lambda>s. False) [''PORT'' \<mapsto> ''3000''] init_process)) = Listening (PortStr ''3000'') \<and>
   connection (step [''PORT'' \<mapsto> ''3000''] id ServerListening
      (app_main (\<lambda>s. False) [''PORT'' \<mapsto> ''3000''] init_process)) = Connecting \<and>
   \<not> listen_accepts (\<lambda>s. False) (PORT [''PORT'' \<mapsto> ''99999'']) \<and>
   listener (app_main (\<lambda>s. False) [''PORT'' \<mapsto> ''99999''] init_process) = NotListening \<and>
   exit_code (app_main (\<lambda>s. False) [''PORT'' \<mapsto> ''99999''] init_process) = Some 1"
proof -
  have legal: "listen_accepts (\<lambda>s. False) (PORT [''PORT'' \<mapsto> ''3000''])"
    by (simp add: PORT_def blank_def decimal_digits_def decimal_value_def)
  have illegal: "\<not> listen_accepts (\<lambda>s. False) (PORT [''PORT'' \<mapsto> ''99999''])"
    by (simp add: PORT_def blank_def decimal_digits_def decimal_value_def)
  have running: "exit_code init_process = None" "listener init_process = NotListening"
    by (simp_all add: init_process_def)
  show ?thesis
    using legal illegal running
      app_listens_without_waiting [of "[''PORT'' \<mapsto> ''3000'']" "\<lambda>s. False" init_process id]
      app_listens_without_waiting [of "[''PORT'' \<mapsto> ''99999'']" "\<lambda>s. False" init_process id]
    by simp
qed

section \<open>README-auth.md: registration\<close>

lemma register_saves:
  assumes "body_username b = Some u" "u \<noteq> []" "u \<notin> set (map username users)"
    and "body_password b = Some pw" "pw \<noteq> []"
    and "body_role b = None \<or> body_role b = Some ''admin'' \<or> body_role b = Some ''user''"
  shows "register hash new_id users b =
     (users @ [\<lparr>uid = new_id, username = u, password = hash pw,
                role = (case body_role b of None \<Rightarrow> ''user'' | Some r \<Rightarrow> r)\<rparr>],
      Response 201 (TokenBody \<lparr>tok_id = new_id,
                tok_role = (case body_role b of None \<Rightarrow> ''user'' | Some r \<Rightarrow> r)\<rparr>))"
proof -
  have "(case body_role b of None \<Rightarrow> ''user'' | Some r \<Rightarrow> r) \<in> set role_enum"
    using assms(6) by (auto simp: role_enum_def)
  then have "save hash new_id users b =
      Inr \<lparr>uid = new_id, username = u, password = hash pw,
           role = (case body_role b of None \<Rightarrow> ''user'' | Some r \<Rightarrow> r)\<rparr>"
    using assms(1-5) by (simp add: save_def required_def)
  then show ?thesis
    by (simp add: register_def generateToken_def)
qed

lemma fresh_username: "\<exists>u. u \<noteq> [] \<and> u \<notin> set (map username users)"
proof -
  have "infinite (UNIV :: string set)" by (rule infinite_UNIV_listI)
  then have "\<exists>u. u \<notin> insert [] (set (map username users))"
    by (intro ex_new_if_finite) simp_all
  then show ?thesis by auto
qed

text \<open>
  C10: \<^verbatim>\<open>register\<close> takes the role from the request body. A request with a fresh
  username, a password and a role of the enum (or no role, which the schema's default
  makes \<^verbatim>\<open>'user'\<close>) stores a user with exactly that role and is answered with 201 and
  a token carrying it. No credential is read, so whatever users exist, some request
  obtains a token with the role \<^verbatim>\<open>admin\<close>.
\<close>

theorem register_stores_supplied_role:
  assumes "body_username b = Some u" "u \<noteq> []" "u \<notin> set (map username users)"
    and "body_password b = Some pw" "pw \<noteq> []"
    and "body_role b = None \<or> body_role b = Some ''admin'' \<or> body_role b = Some ''user''"
  shows "register hash new_id users b =
     (users @ [\<lparr>uid = new_id, username = u, password = hash pw,
                role = (case body_role b of None \<Rightarrow> ''user'' | Some r \<Rightarrow> r)\<rparr>],
      Response 201 (TokenBody \<lparr>tok_id = new_id,
                tok_role = (case body_role b of None \<Rightarrow> ''user'' | Some r \<Rightarrow> r)\<rparr>))
   \<and> (\<exists>b' users'. register hash new_id users b' =
         (users', Response 201 (TokenBody \<lparr>tok_id = new_id, tok_role = ''admin''\<rparr>)))"
proof
  show "register hash new_id users b =
     (users @ [\<lparr>uid = new_id, username = u, password = hash pw,
                role = (case body_role b of None \<Rightarrow> ''user'' | Some r \<Rightarrow> r)\<rparr>],
      Response 201 (TokenBody \<lparr>tok_id = new_id,
                tok_role = (case body_role b of None \<Rightarrow> ''user'' | Some r \<Rightarrow> r)\<rparr>))"
    using assms by (rule register_saves)
next
  obtain v where v: "v \<noteq> []" "v \<notin> set (map username users)"
    using fresh_username by blast
  let ?b = "\<lparr>body_username = Some v, body_password = Some ''x'', body_role = Some ''admin''\<rparr>"
  have "register hash new_id users ?b =
     (users @ [\<lparr>uid = new_id, username = v, password = hash ''x'', role = ''admin''\<rparr>],
      Response 201 (TokenBody \<lparr>tok_id = new_id, tok_role = ''admin''\<rparr>))"
    using register_saves [of ?b v users "''x''" hash new_id] v by simp
  then show "\<exists>b' users'. register hash new_id users b' =
         (users', Response 201 (TokenBody \<lparr>tok_id = new_id, tok_role = ''admin''\<rparr>))"
    by blast
qed

theorem register_stores_supplied_role_witness:
  "register id 5 [] \<lparr>body_username = Some ''eve'', body_password = Some ''pw'', body_role = Some ''admin''\<rparr>
   = ([\<lparr>uid = 5, username = ''eve'', password = ''pw'', role = ''admin''\<rparr>],
      Response 201 (TokenBody \<lparr>tok_id = 5, tok_role = ''admin''\<rparr>))"
  using register_stores_supplied_role
    [of "\<lparr>body_username = Some ''eve'', body_password = Some ''pw'', body_role = Some ''admin''\<rparr>"
        "''eve''" "[]" "''pw''" id 5]
  by simp

section \<open>README-auth.md: authorization\<close>

lemma authenticate_sets_user:
  "authenticate verify raw = Next req \<Longrightarrow> req_user req \<noteq> None"
  by (auto simp: authenticate_def split: option.splits if_splits)

lemma protected_never_throws: "protected verify roles raw \<noteq> Threw e"
proof (cases "authenticate verify raw")
  case (Next req)
  then obtain u where "req_user req = Some u"
    using authenticate_sets_user by fastforce
  with Next show ?thesis by (simp add: protected_def authorize_def)
next
  case (Responded st msg)
  then show ?thesis by (simp add: protected_def)
next
  case (Threw x)
  then show ?thesis by (auto simp: authenticate_def split: option.splits if_splits)
qed

text \<open>
  C1: a role that the list given to \<^verbatim>\<open>authorize\<close> does not name is denied: the
  middleware answers 403 \<^verbatim>\<open>Forbidden\<close>, its one denial, and does not call
  \<^verbatim>\<open>next()\<close>. Behind \<^verbatim>\<open>authenticate\<close>, as every protected route mounts it, the check
  never throws.
\<close>

theorem authorize_default_deny:
  assumes "req_user req = Some u" and "tok_role u \<notin> set roles"
  shows "authorize roles req = Responded 403 ''Forbidden'' \<and>
         (\<forall>verify raw e. protected verify roles raw \<noteq> Threw e)"
  using assms by (simp add: authorize_def protected_never_throws)

theorem authorize_default_deny_witness:
  "tok_role \<lparr>tok_id = 7, tok_role = ''user''\<rparr> \<notin> set [''admin''] \<and>
   authorize [''admin'']
     \<lparr>authorization = Some ''Bearer t'', req_user = Some \<lparr>tok_id = 7, tok_role = ''user''\<rparr>,
      req_params = []\<rparr> = Responded 403 ''Forbidden''"
  using authorize_default_deny
    [of "\<lparr>authorization = Some ''Bearer t'', req_user = Some \<lparr>tok_id = 7, tok_role = ''user''\<rparr>,
          req_params = []\<rparr>" "\<lparr>tok_id = 7, tok_role = ''user''\<rparr>" "[''admin'']"]
  by simp

text \<open>
  \<^verbatim>\<open>authorize\<close> reads nothing of a request but the role of its principal: the
  subject of the principal and the route parameters, which is where a request would
  name a resource or its owner, make no difference to its answer. It has no rule that
  looks at an owner and no denial other than 403 \<^verbatim>\<open>Forbidden\<close>.
\<close>

lemma authorize_reads_role_only:
  "authorize roles
     (req\<lparr>req_user := Some \<lparr>tok_id = subject, tok_role = r\<rparr>, req_params := params\<rparr>)
   = (if r \<in> set roles
      then Next (req\<lparr>req_user := Some \<lparr>tok_id = subject, tok_role = r\<rparr>, req_params := params\<rparr>)
      else Responded 403 ''Forbidden'')"
  by (simp add: authorize_def)

section \<open>The Reference Resolver: lookups and splicing\<close>

text \<open>
  Descending into an expanded document, said with \<open>collect_field\<close> and
  \<open>map_field\<close>; the proofs below use these two equations.
\<close>

lemma collect_Expanded:
  "collect (s # rest) chain (Expanded c i flds) =
     collect_field s (collect rest ((c, i) # chain)) flds"
  by (simp add: collect_field_def)

lemma splice_at_Expanded:
  "splice_at proj res (s # rest) chain (Expanded c i flds) =
     Expanded c i (map_field s (splice_at proj res rest ((c, i) # chain)) flds)"
  by (simp add: map_field_def)

declare collect.simps(3) [simp del]

declare splice_at.simps(3) [simp del]

declare collect_Expanded [simp]

declare splice_at_Expanded [simp]

lemma issue_simps:
  "stored (fst (issue w c ids)) = stored w"
  "lookups (fst (issue w c ids)) = lookups w @ [(c, ids)]"
  "snd (issue w c ids) = map (\<lambda>i. (i, stored w c i)) ids"
  by (simp_all add: issue_def getBatch_def getById_def)

lemma fetch_Cons:
  "fetch w (b # bs) =
     (fst (fetch (fst (issue w (fst b) (snd b))) bs),
      map (\<lambda>i. ((fst b, i), stored w (fst b) i)) (snd b)
        @ snd (fetch (fst (issue w (fst b) (snd b))) bs))"
  by (cases b) (simp add: case_prod_beta issue_simps)

lemma fetch_stored: "stored (fst (fetch w bs)) = stored w"
  by (induction bs arbitrary: w) (simp_all add: fetch_Cons issue_simps)

lemma fetch_lookups: "lookups (fst (fetch w bs)) = lookups w @ bs"
  by (induction bs arbitrary: w) (simp_all add: fetch_Cons issue_simps)

lemma fetch_found:
  "snd (fetch w bs) = concat (map (\<lambda>b. map (\<lambda>i. ((fst b, i), stored w (fst b) i)) (snd b)) bs)"
  by (induction bs arbitrary: w) (simp_all add: fetch_Cons issue_simps)

lemma batches_keys: "map fst (batches refs) = remdups (map fst refs)"
  by (simp add: batches_def comp_def)

lemma batches_ids:
  assumes "(c, ids) \<in> set (batches refs)"
  shows "ids = remdups (map snd (filter (\<lambda>r. fst r = c) refs))"
  using assms by (auto simp: batches_def)

lemma batches_ids_set:
  assumes "(c, ids) \<in> set (batches refs)"
  shows "distinct ids \<and> set ids = {i. (c, i) \<in> set refs}"
proof -
  have ids: "ids = remdups (map snd (filter (\<lambda>r. fst r = c) refs))"
    using assms by (rule batches_ids)
  have "set ids = {i. (c, i) \<in> set refs}"
    unfolding ids by force
  then show ?thesis by (simp add: ids)
qed

lemma batches_member:
  assumes "(c, i) \<in> set refs"
  shows "\<exists>ids. (c, ids) \<in> set (batches refs) \<and> i \<in> set ids"
proof -
  let ?ids = "remdups (map snd (filter (\<lambda>r. fst r = c) refs))"
  have "c \<in> set (remdups (map fst refs))" using assms by force
  then have "(c, ?ids) \<in> set (batches refs)" by (auto simp: batches_def)
  moreover have "i \<in> set ?ids" using assms by force
  ultimately show ?thesis by blast
qed

lemma map_of_constant:
  assumes "\<And>k v. (k, v) \<in> set xs \<Longrightarrow> v = g k" and "k \<in> fst ` set xs"
  shows "map_of xs k = Some (g k)"
proof -
  from assms(2) obtain v where "map_of xs k = Some v"
    by (metis domD dom_map_of_conv_image_fst)
  moreover then have "(k, v) \<in> set xs" by (rule map_of_SomeD)
  ultimately show ?thesis using assms(1) by simp
qed

lemma found_lookup:
  assumes "(c, i) \<in> set refs"
  shows "map_of (snd (fetch w (batches refs))) (c, i) = Some (stored w c i)"
proof -
  let ?found = "snd (fetch w (batches refs))"
  have val: "v = stored w (fst k) (snd k)" if "(k, v) \<in> set ?found" for k v
    using that by (auto simp: fetch_found)
  from assms obtain ids where "(c, ids) \<in> set (batches refs)" "i \<in> set ids"
    using batches_member by blast
  then have "((c, i), stored w c i) \<in> set ?found"
    by (force simp: fetch_found)
  then have "(c, i) \<in> fst ` set ?found"
    by force
  with val have "map_of ?found (c, i) = Some (stored w (fst (c, i)) (snd (c, i)))"
    by (rule map_of_constant [where g = "\<lambda>k. stored w (fst k) (snd k)"])
  then show ?thesis by simp
qed

lemma map_field_keys: "map fst (map_field s g flds) = map fst flds"
  by (induction flds) (simp_all add: map_field_def)

lemma map_field_outside:
  "s \<in> H \<Longrightarrow> filter (\<lambda>kv. fst kv \<notin> H) (map_field s g flds) = filter (\<lambda>kv. fst kv \<notin> H) flds"
  by (induction flds) (auto simp: map_field_def)

lemma map_of_map_field: "map_of (map_field s g flds) s = map_option g (map_of flds s)"
  by (induction flds) (auto simp: map_field_def)

lemma map_of_map_field_other: "k \<noteq> s \<Longrightarrow> map_of (map_field s g flds) k = map_of flds k"
  by (induction flds) (auto simp: map_field_def)

lemma collect_field_mem:
  "map_of flds s = Some v \<Longrightarrow> set (g v) \<subseteq> set (collect_field s g flds)"
  by (induction flds) (auto simp: collect_field_def split: if_splits)

lemma collect_field_distinct:
  "distinct (map fst flds) \<Longrightarrow> map_of flds s = Some v \<Longrightarrow> collect_field s g flds = g v"
proof (induction flds)
  case Nil
  then show ?case by simp
next
  case (Cons kv flds)
  show ?case
  proof (cases "fst kv = s")
    case True
    with Cons.prems have "s \<notin> fst ` set flds" and v: "snd kv = v" by auto
    then have "concat (map (\<lambda>kv. if fst kv = s then g (snd kv) else []) flds) = []"
      by (induction flds) auto
    with True v show ?thesis by (simp add: collect_field_def)
  next
    case False
    with Cons show ?thesis by (simp add: collect_field_def)
  qed
qed

lemma expand_level_eq:
  "expand_level proj pre wd =
     (fst (fetch (fst wd) (batches (collect_doc pre (snd wd)))),
      splice_doc proj (map_of (snd (fetch (fst wd) (batches (collect_doc pre (snd wd)))))) pre (snd wd))"
  by (simp add: expand_level_def case_prod_beta)

lemma resolve_single:
  assumes "valid_path sch (doc_coll d) [f]"
  shows "resolve sch w d [\<lparr>segments = [f], projection = proj\<rparr>] =
     (fst (fetch w (batches (collect_doc [f] d))),
      Inr (splice_doc proj (map_of (snd (fetch w (batches (collect_doc [f] d))))) [f] d))"
  using assms by (simp add: resolve_def resolve_path_def expand_level_eq)

lemma splice_at_refs:
  assumes "\<And>c i. (c, i) \<in> set rs \<Longrightarrow> (c, i) \<notin> set chain \<and> res (c, i) = Some (st c i)"
  shows "splice_at proj res [] chain (Seq (map (\<lambda>(c, i). Ref c i) rs)) =
         Seq (map (\<lambda>(c, i). case st c i of
                               None \<Rightarrow> UnresolvedReference c i
                             | Some flds \<Rightarrow> Expanded c i (project proj flds)) rs)"
  using assms by (induction rs) (auto split: option.split)

lemma collect_refs:
  "collect [] chain (Seq (map (\<lambda>(c, i). Ref c i) rs)) = filter (\<lambda>r. r \<notin> set chain) rs"
  by (induction rs) auto

section \<open>The Reference Resolver: missing targets\<close>

text \<open>A field that holds one reference whose target is missing.\<close>

lemma missing_single_target_is_marked:
  assumes valid: "valid_path sch (doc_coll d) [f]"
    and field: "map_of (doc_fields d) f = Some (Ref c i)"
    and self: "(doc_coll d, doc_id d) \<noteq> (c, i)"
    and gone: "stored w c i = None"
  shows "\<exists>w' d'. resolve sch w d [\<lparr>segments = [f], projection = proj\<rparr>] = (w', Inr d') \<and>
           map_of (doc_fields d') f = Some (UnresolvedReference c i)"
proof -
  let ?refs = "collect_doc [f] d"
  let ?res = "map_of (snd (fetch w (batches ?refs)))"
  have "set (collect [] [(doc_coll d, doc_id d)] (Ref c i)) \<subseteq> set ?refs"
    using field by (simp only: collect_doc.simps) (rule collect_field_mem)
  then have "(c, i) \<in> set ?refs"
    using self by auto
  then have "?res (c, i) = Some None"
    using found_lookup [of c i ?refs w] gone by simp
  then have "map_of (doc_fields (splice_doc proj ?res [f] d)) f = Some (UnresolvedReference c i)"
    using self by (auto simp: map_of_map_field field)
  then show ?thesis
    using resolve_single [OF valid, of w proj] by simp
qed

text \<open>
  C2: when a path covers a field holding references, the expanded copy holds, at the
  position of each reference, the target document, or the \<open>UnresolvedReference\<close>
  marker when Storage has no document of that identifier: the call does not fail and
  no position is dropped. (A reference to the document being resolved is the subject
  of C5.)
\<close>

theorem missing_target_is_marked:
  assumes valid: "valid_path sch (doc_coll d) [f]"
    and field: "map_of (doc_fields d) f = Some (Seq (map (\<lambda>(c, i). Ref c i) rs))"
    and self: "(doc_coll d, doc_id d) \<notin> set rs"
  shows "\<exists>w' d'. resolve sch w d [\<lparr>segments = [f], projection = proj\<rparr>] = (w', Inr d') \<and>
           map_of (doc_fields d') f =
             Some (Seq (map (\<lambda>(c, i). case stored w c i of
                                         None \<Rightarrow> UnresolvedReference c i
                                       | Some flds \<Rightarrow> Expanded c i (project proj flds)) rs))"
proof -
  let ?refs = "collect_doc [f] d"
  let ?res = "map_of (snd (fetch w (batches ?refs)))"
  let ?chain = "[(doc_coll d, doc_id d)]"
  have "set (collect [] ?chain (Seq (map (\<lambda>(c, i). Ref c i) rs))) \<subseteq> set ?refs"
    using field by (simp only: collect_doc.simps) (rule collect_field_mem)
  then have sub: "set rs \<subseteq> set ?refs"
    using self by (simp only: collect_refs) auto
  have looked: "(c, i) \<notin> set ?chain \<and> ?res (c, i) = Some (stored w c i)"
    if "(c, i) \<in> set rs" for c i
    using that sub self found_lookup [of c i ?refs w] by auto
  have "map_of (doc_fields (splice_doc proj ?res [f] d)) f =
        Some (splice_at proj ?res [] ?chain (Seq (map (\<lambda>(c, i). Ref c i) rs)))"
    by (simp add: map_of_map_field field)
  also have "splice_at proj ?res [] ?chain (Seq (map (\<lambda>(c, i). Ref c i) rs)) =
        Seq (map (\<lambda>(c, i). case stored w c i of
                               None \<Rightarrow> UnresolvedReference c i
                             | Some flds \<Rightarrow> Expanded c i (project proj flds)) rs)"
    using looked by (rule splice_at_refs)
  finally show ?thesis
    using resolve_single [OF valid, of w proj] by simp
qed

theorem missing_target_is_marked_witness:
  "stored blog ''Post'' 11 = None \<and>
   (\<exists>w' d'. resolve example_schema blog user1 [\<lparr>segments = [''posts''], projection = None\<rparr>]
               = (w', Inr d') \<and>
            map_of (doc_fields d') ''posts'' =
              Some (Seq [Expanded ''Post'' 10 [(''title'', Prim ''First Post'')],
                         UnresolvedReference ''Post'' 11]))"
  using missing_target_is_marked
    [of example_schema user1 "''posts''" "[(''Post'', 10), (''Post'', 11)]" blog None]
  by (simp add: example_schema_def user1_def alice_fields_def blog_def project_def)

section \<open>The Reference Resolver: what population leaves alone\<close>

lemma frame_refl: "frame H wd wd"
  by (simp add: frame_def)

lemma frame_trans: "frame H a b \<Longrightarrow> frame H b c \<Longrightarrow> frame H a c"
  by (simp add: frame_def)

lemma frame_mono: "H \<subseteq> H' \<Longrightarrow> frame H a b \<Longrightarrow> frame H' a b"
proof -
  assume sub: "H \<subseteq> H'" and f: "frame H a b"
  have "filter (\<lambda>kv. fst kv \<notin> H') (filter (\<lambda>kv. fst kv \<notin> H) (doc_fields (snd b))) =
        filter (\<lambda>kv. fst kv \<notin> H') (filter (\<lambda>kv. fst kv \<notin> H) (doc_fields (snd a)))"
    using f by (simp add: frame_def)
  moreover have "(\<lambda>kv. fst kv \<notin> H \<and> fst kv \<notin> H') = (\<lambda>kv::string \<times> val. fst kv \<notin> H')"
    using sub by auto
  ultimately have "filter (\<lambda>kv. fst kv \<notin> H') (doc_fields (snd b)) =
        filter (\<lambda>kv. fst kv \<notin> H') (doc_fields (snd a))"
    by (simp add: conj_commute)
  with f show ?thesis by (simp add: frame_def)
qed

lemma splice_doc_frame:
  assumes "pre \<noteq> []" "hd pre \<in> H"
  shows "frame H (w, d) (w', splice_doc proj res pre d) \<longleftrightarrow> stored w' = stored w"
proof (cases pre)
  case Nil
  with assms show ?thesis by simp
next
  case (Cons s rest)
  with assms have "s \<in> H" by simp
  then show ?thesis
    by (simp add: Cons frame_def map_field_keys map_field_outside)
qed

lemma expand_level_frame:
  assumes "pre \<noteq> []" "hd pre \<in> H"
  shows "frame H wd (expand_level proj pre wd)"
proof (cases wd)
  case (Pair w d)
  show ?thesis
    unfolding Pair expand_level_eq fst_conv snd_conv
    using assms by (simp add: splice_doc_frame fetch_stored)
qed

lemma expand_from_frame:
  assumes "segs \<noteq> [] \<Longrightarrow> hd (pre @ segs) \<in> H"
  shows "frame H wd (expand_from proj pre segs wd)"
  using assms
proof (induction segs arbitrary: pre wd)
  case Nil
  show ?case by (simp add: frame_refl)
next
  case (Cons s rest)
  have h: "hd (pre @ [s]) \<in> H"
    using Cons.prems by (cases pre) simp_all
  have one: "frame H wd (expand_level (if rest = [] then proj else None) (pre @ [s]) wd)"
    using h by (intro expand_level_frame) simp_all
  have "hd ((pre @ [s]) @ rest) \<in> H"
    using Cons.prems by simp
  then have two: "frame H (expand_level (if rest = [] then proj else None) (pre @ [s]) wd)
      (expand_from proj (pre @ [s]) rest
        (expand_level (if rest = [] then proj else None) (pre @ [s]) wd))"
    by (intro Cons.IH)
  show ?case
    unfolding expand_from.simps by (rule frame_trans [OF one two])
qed

lemma resolve_path_frame: "frame (set (take 1 (segments p))) wd (resolve_path p wd)"
  unfolding resolve_path_def
  by (rule expand_from_frame) (cases "segments p"; simp)

lemma fold_resolve_path_frame: "frame (heads paths) wd (fold resolve_path paths wd)"
proof (induction paths arbitrary: wd)
  case Nil
  show ?case by (simp add: frame_refl)
next
  case (Cons p paths)
  have "frame (heads (p # paths)) wd (resolve_path p wd)"
    by (rule frame_mono [OF _ resolve_path_frame]) (simp add: heads_def)
  moreover have "frame (heads (p # paths)) (resolve_path p wd) (fold resolve_path paths (resolve_path p wd))"
    by (rule frame_mono [OF _ Cons.IH]) (auto simp: heads_def)
  ultimately show ?case
    unfolding fold_simps by (rule frame_trans)
qed

text \<open>
  C3: when every path of a call resolves, \<^verbatim>\<open>resolve\<close> returns an expanded copy of
  the document with the same identity and the same field names in the same order, in
  which every field that no path covers is the field of the input; the stored documents
  are what they were before the call.
\<close>

theorem resolve_frame:
  assumes "list_all (\<lambda>p. valid_path sch (doc_coll d) (segments p)) paths"
  shows "\<exists>w' d'. resolve sch w d paths = (w', Inr d') \<and>
           stored w' = stored w \<and>
           doc_coll d' = doc_coll d \<and> doc_id d' = doc_id d \<and>
           map fst (doc_fields d') = map fst (doc_fields d) \<and>
           filter (\<lambda>kv. fst kv \<notin> heads paths) (doc_fields d') =
             filter (\<lambda>kv. fst kv \<notin> heads paths) (doc_fields d)"
proof -
  obtain w' d' where run: "fold resolve_path paths (w, d) = (w', d')"
    by (cases "fold resolve_path paths (w, d)")
  have "frame (heads paths) (w, d) (w', d')"
    using fold_resolve_path_frame [of paths "(w, d)"] by (simp add: run)
  moreover have "resolve sch w d paths = (w', Inr d')"
    using assms by (simp add: resolve_def run)
  ultimately show ?thesis
    by (simp add: frame_def)
qed

theorem resolve_frame_witness:
  "\<exists>w' d'. resolve example_schema blog user1 [\<lparr>segments = [''posts''], projection = None\<rparr>]
              = (w', Inr d') \<and>
           stored w' = stored blog \<and>
           map fst (doc_fields d') = [''name'', ''posts''] \<and>
           filter (\<lambda>kv. fst kv \<noteq> ''posts'') (doc_fields d') = [(''name'', Prim ''Alice'')]"
  using resolve_frame
    [of example_schema user1 "[\<lparr>segments = [''posts''], projection = None\<rparr>]" blog]
  by (auto simp: example_schema_def user1_def alice_fields_def heads_def)

section \<open>The Reference Resolver: positions and levels\<close>

text \<open>
  The references collected and the values spliced, said position by position, and a
  call as the run of its levels.
\<close>

lemma positions_atom [simp]:
  "positions segs chain (Prim x) = (if segs = [] then [(chain, Prim x)] else [])"
  "positions segs chain (Embedded e) = (if segs = [] then [(chain, Embedded e)] else [])"
  "positions segs chain (UnresolvedReference c i) =
     (if segs = [] then [(chain, UnresolvedReference c i)] else [])"
  "positions segs chain (AlreadyExpanding c i) =
     (if segs = [] then [(chain, AlreadyExpanding c i)] else [])"
  by (cases segs; simp)+

lemma collect_positions: "collect segs chain v = concat (map wanted (positions segs chain v))"
proof (induction segs chain v rule: collect.induct)
  case (1 segs chain vs)
  then show ?case by (induction vs) simp_all
next
  case (2 chain c i)
  show ?case by simp
next
  case (3 s rest chain c i flds)
  then show ?case
    by (induction flds) (simp_all add: collect_field_def)
qed simp_all

lemma positions_splice_at:
  "positions segs chain (splice_at proj res segs chain v) =
     map (place proj res) (positions segs chain v)"
proof (induction proj res segs chain v rule: splice_at.induct)
  case (1 proj res segs chain vs)
  then show ?case by (induction vs) simp_all
next
  case (2 proj res chain c i)
  show ?case by (simp split: option.split)
next
  case (3 proj res s rest chain c i flds)
  then show ?case
    by (induction flds) (simp_all add: map_field_def)
qed simp_all

lemma collect_doc_positions: "collect_doc pre d = concat (map wanted (doc_positions pre d))"
proof (cases pre)
  case Nil
  then show ?thesis by simp
next
  case (Cons s rest)
  have "collect_field s (collect rest ch) flds =
        concat (map wanted
          (concat (map (\<lambda>kv. if fst kv = s then positions rest ch (snd kv) else []) flds)))"
    for ch flds
    by (induction flds) (simp_all add: collect_field_def collect_positions)
  then show ?thesis
    by (simp add: Cons)
qed

lemma doc_positions_splice_doc:
  "doc_positions pre (splice_doc proj res pre d) = map (place proj res) (doc_positions pre d)"
proof (cases pre)
  case Nil
  then show ?thesis by simp
next
  case (Cons s rest)
  have "concat (map (\<lambda>kv. if fst kv = s then positions rest ch (snd kv) else [])
          (map_field s (splice_at proj res rest ch) flds)) =
        map (place proj res)
          (concat (map (\<lambda>kv. if fst kv = s then positions rest ch (snd kv) else []) flds))"
    for ch flds
    by (induction flds) (simp_all add: map_field_def positions_splice_at)
  then show ?thesis
    unfolding Cons splice_doc.simps doc_positions.simps
    by (simp cong del: if_weak_cong)
qed

lemma expand_level_lookups:
  "lookups (fst (expand_level proj pre wd)) =
     lookups (fst wd) @ batches (collect_doc pre (snd wd))"
  by (simp add: expand_level_eq fetch_lookups)

lemma expand_from_levels:
  "expand_from proj pre segs wd =
     fold (\<lambda>l. expand_level (fst l) (snd l)) (levels_from proj pre segs) wd"
  by (induction segs arbitrary: pre wd) (simp_all del: expand_level_eq)

lemma fold_resolve_path_levels:
  "fold resolve_path paths wd = fold (\<lambda>l. expand_level (fst l) (snd l)) (levels paths) wd"
proof (induction paths arbitrary: wd)
  case Nil
  show ?case by (simp add: levels_def)
next
  case (Cons p paths)
  have split: "levels (p # paths) = levels_from (projection p) [] (segments p) @ levels paths"
    by (simp add: levels_def)
  have "fold resolve_path (p # paths) wd = fold resolve_path paths (resolve_path p wd)"
    by simp
  also have "\<dots> = fold (\<lambda>l. expand_level (fst l) (snd l)) (levels paths) (resolve_path p wd)"
    by (rule Cons.IH)
  also have "resolve_path p wd =
      fold (\<lambda>l. expand_level (fst l) (snd l)) (levels_from (projection p) [] (segments p)) wd"
    unfolding resolve_path_def by (rule expand_from_levels)
  finally show ?case
    unfolding split by simp
qed

lemma resolve_levels:
  assumes "list_all (\<lambda>p. valid_path sch (doc_coll d) (segments p)) paths"
  shows "resolve sch w d paths =
     (fst (fold (\<lambda>l. expand_level (fst l) (snd l)) (levels paths) (w, d)),
      Inr (snd (fold (\<lambda>l. expand_level (fst l) (snd l)) (levels paths) (w, d))))"
  using assms by (simp add: resolve_def fold_resolve_path_levels case_prod_beta)

lemma expand_level_positions:
  "doc_positions pre (snd (expand_level proj pre (w0, d0))) =
     map (place proj (map_of (snd (fetch w0 (batches (collect_doc pre d0))))))
       (doc_positions pre d0)"
  by (simp add: expand_level_eq doc_positions_splice_doc)

lemma wanted_collected:
  assumes "(ch, Ref c i) \<in> set (doc_positions pre d0)" and "(c, i) \<notin> set ch"
  shows "(c, i) \<in> set (collect_doc pre d0)"
proof -
  have "(c, i) \<in> set (wanted (ch, Ref c i))"
    using assms(2) by simp
  with assms(1) show ?thesis
    unfolding collect_doc_positions by (auto intro!: bexI [of _ "(ch, Ref c i)"])
qed

lemma collected_wanted:
  assumes "(c, i) \<in> set (collect_doc pre d0)"
  shows "\<exists>ch. (ch, Ref c i) \<in> set (doc_positions pre d0) \<and> (c, i) \<notin> set ch"
proof -
  from assms obtain pos where pos: "pos \<in> set (doc_positions pre d0)" "(c, i) \<in> set (wanted pos)"
    unfolding collect_doc_positions by auto
  obtain ch u where [simp]: "pos = (ch, u)" by (cases pos)
  from pos(2) have "u = Ref c i \<and> (c, i) \<notin> set ch"
    by (cases u) (auto split: if_splits)
  with pos(1) show ?thesis by auto
qed

lemma place_on_chain:
  "(c, i) \<in> set ch \<Longrightarrow> place proj res (ch, Ref c i) = (ch, AlreadyExpanding c i)"
  by simp

lemma place_looked_up:
  "(c, i) \<notin> set ch \<Longrightarrow> res (c, i) = Some (st c i) \<Longrightarrow>
   place proj res (ch, Ref c i) =
     (ch, case st c i of None \<Rightarrow> UnresolvedReference c i
          | Some flds \<Rightarrow> Expanded c i (project proj flds))"
  by (simp split: option.split)

section \<open>The Reference Resolver: batching\<close>

lemma card_ids:
  assumes "(c, ids) \<in> set (batches refs)"
  shows "length ids = card {i. (c, i) \<in> set refs}"
  using batches_ids_set [OF assms] distinct_card [of ids] by simp

lemma batches_shape:
  "distinct (map fst (batches rs)) \<and> fst ` set (batches rs) = fst ` set rs \<and>
   (\<forall>b \<in> set (batches rs). distinct (snd b) \<and>
      set (snd b) = {i. (fst b, i) \<in> set rs} \<and>
      length (snd b) = card {i. (fst b, i) \<in> set rs})"
proof -
  have "distinct (map fst (batches rs))"
    by (simp add: batches_keys)
  moreover have "fst ` set (batches rs) = fst ` set rs"
    using batches_keys [of rs] by (metis list.set_map set_remdups)
  moreover have "distinct (snd b) \<and> set (snd b) = {i. (fst b, i) \<in> set rs} \<and>
      length (snd b) = card {i. (fst b, i) \<in> set rs}"
    if "b \<in> set (batches rs)" for b
    using that batches_ids_set [of "fst b" "snd b" rs] card_ids [of "fst b" "snd b" rs]
    by simp
  ultimately show ?thesis by blast
qed

text \<open>
  Batching is done within a level, not across the paths of a call. The posts and the
  drafts of the author both reference post 10: one distinct identifier is referenced
  for the collection, and a call with the two paths issues two batched lookups to it,
  each asking for post 10.
\<close>

lemma two_paths_two_lookups:
  "list_all (\<lambda>p. valid_path writer_schema (doc_coll writer) (segments p))
     [\<lparr>segments = [''posts''], projection = None\<rparr>, \<lparr>segments = [''drafts''], projection = None\<rparr>] \<and>
   collect_doc [''posts''] writer @ collect_doc [''drafts''] writer = [(''Post'', 10), (''Post'', 10)] \<and>
   lookups (fst (resolve writer_schema blog writer
     [\<lparr>segments = [''posts''], projection = None\<rparr>, \<lparr>segments = [''drafts''], projection = None\<rparr>]))
   = [(''Post'', [10]), (''Post'', [10])]"
  by (simp add: writer_schema_def writer_def blog_def resolve_def resolve_path_def
      expand_level_eq collect_field_def batches_def issue_def map_field_def)

text \<open>
  A \<^verbatim>\<open>resolve\<close> call whose paths resolve runs its levels in order, a level being a
  prefix of one of its paths. At each level, from whatever state, the Resolver issues
  one batched lookup per distinct target collection among the references \<open>refs\<close> that
  stand at the level's positions off their chain, and the batch of a collection asks
  for each identifier referenced in it once: as many identifiers as distinct ones,
  however often they are referenced. Storage is left as it was, no position is added or
  dropped, and each position that held such a reference then holds Storage's answer for
  it, the target document or the unresolved marker.
\<close>

lemma level_batching:
  fixes sch w d paths proj pre w0 d0
  defines "run \<equiv> fold (\<lambda>l. expand_level (fst l) (snd l)) (levels paths) (w, d)"
    and "refs \<equiv> collect_doc pre d0"
    and "before \<equiv> doc_positions pre d0"
    and "after \<equiv> doc_positions pre (snd (expand_level proj pre (w0, d0)))"
  assumes valid: "list_all (\<lambda>p. valid_path sch (doc_coll d) (segments p)) paths"
  shows "resolve sch w d paths = (fst run, Inr (snd run)) \<and>
         stored (fst (expand_level proj pre (w0, d0))) = stored w0 \<and>
         lookups (fst (expand_level proj pre (w0, d0))) = lookups w0 @ batches refs \<and>
         distinct (map fst (batches refs)) \<and>
         fst ` set (batches refs) = fst ` set refs \<and>
         (\<forall>b \<in> set (batches refs).
            distinct (snd b) \<and>
            set (snd b) = {i. (fst b, i) \<in> set refs} \<and>
            length (snd b) = card {i. (fst b, i) \<in> set refs}) \<and>
         set refs = {(c, i). \<exists>ch. (ch, Ref c i) \<in> set before \<and> (c, i) \<notin> set ch} \<and>
         length after = length before \<and>
         (\<forall>n ch c i. n < length before \<longrightarrow> before ! n = (ch, Ref c i) \<longrightarrow> (c, i) \<notin> set ch \<longrightarrow>
            after ! n = (ch, case stored w0 c i of
                               None \<Rightarrow> UnresolvedReference c i
                             | Some flds \<Rightarrow> Expanded c i (project proj flds)))"
proof -
  let ?res = "map_of (snd (fetch w0 (batches refs)))"
  have run: "resolve sch w d paths = (fst run, Inr (snd run))"
    unfolding run_def using valid by (rule resolve_levels)
  have st: "stored (fst (expand_level proj pre (w0, d0))) = stored w0"
    by (simp add: expand_level_eq fetch_stored)
  have lk: "lookups (fst (expand_level proj pre (w0, d0))) = lookups w0 @ batches refs"
    unfolding refs_def by (simp add: expand_level_lookups)
  have after: "after = map (place proj ?res) before"
    unfolding after_def before_def refs_def by (rule expand_level_positions)
  have asked: "set refs = {(c, i). \<exists>ch. (ch, Ref c i) \<in> set before \<and> (c, i) \<notin> set ch}"
    unfolding before_def refs_def using wanted_collected collected_wanted by fast
  have spliced: "after ! n = (ch, case stored w0 c i of
                         None \<Rightarrow> UnresolvedReference c i
                       | Some flds \<Rightarrow> Expanded c i (project proj flds))"
    if n: "n < length before" and at: "before ! n = (ch, Ref c i)" and off: "(c, i) \<notin> set ch"
    for n ch c i
  proof -
    have "(ch, Ref c i) \<in> set before"
      using n at by (metis nth_mem)
    then have mem: "(c, i) \<in> set refs"
      unfolding before_def refs_def using off by (rule wanted_collected)
    then have "?res (c, i) = Some (stored w0 c i)"
      by (rule found_lookup)
    with off have "place proj ?res (ch, Ref c i) =
        (ch, case stored w0 c i of None \<Rightarrow> UnresolvedReference c i
             | Some flds \<Rightarrow> Expanded c i (project proj flds))"
      by (rule place_looked_up)
    with n at show ?thesis
      by (simp add: after)
  qed
  show ?thesis
    using run st lk batches_shape [of refs] asked spliced by (simp add: after)
qed

text \<open>Three references to two posts in one field: one lookup, asking for the two posts.\<close>

lemma level_batching_example:
  "list_all (\<lambda>p. valid_path example_schema (doc_coll user1) (segments p))
     [\<lparr>segments = [''posts''], projection = None\<rparr>] \<and>
   lookups (fst (resolve example_schema blog
      (user1\<lparr>doc_fields := [(''posts'', Seq [Ref ''Post'' 10, Ref ''Post'' 11, Ref ''Post'' 10])]\<rparr>)
      [\<lparr>segments = [''posts''], projection = None\<rparr>]))
   = [(''Post'', [11, 10])]"
  using level_batching
    [of example_schema
        "user1\<lparr>doc_fields := [(''posts'', Seq [Ref ''Post'' 10, Ref ''Post'' 11, Ref ''Post'' 10])]\<rparr>"
        "[\<lparr>segments = [''posts''], projection = None\<rparr>]" blog]
  by (simp add: example_schema_def user1_def blog_def levels_def collect_field_def batches_def)

section \<open>The Reference Resolver: cycles\<close>

text \<open>No pair of the chain is among the references collected for a lookup.\<close>

lemma collect_avoids_chain: "r \<in> set (collect segs chain v) \<Longrightarrow> r \<notin> set chain"
proof (induction segs chain v rule: collect.induct)
  case (1 segs chain vs)
  then show ?case by auto
next
  case (2 chain c i)
  then show ?case by (auto split: if_splits)
next
  case (3 s rest chain c i flds)
  from "3.prems" obtain kv where kv: "kv \<in> set flds" "fst kv = s"
      "r \<in> set (collect rest ((c, i) # chain) (snd kv))"
    by (auto simp: collect_field_def split: if_splits)
  have "r \<notin> set ((c, i) # chain)"
    using kv by (rule "3.IH")
  then show ?case by simp
qed simp_all

text \<open>
  Two documents that reference each other: when field \<open>f\<close> of A references B and
  field \<open>g\<close> of B references A, resolving the nested path \<open>f.g\<close> on A puts B in
  the place of A's reference and, in B, the already-expanding marker for A; B is the
  only document looked up.
\<close>

lemma mutual_references_marked:
  assumes sch: "sch U f = Some (TRef V)" "sch V g = Some (TRef U)"
    and A: "doc_coll dA = U" "doc_id dA = a" "distinct (map fst (doc_fields dA))"
       "map_of (doc_fields dA) f = Some (Ref V b)"
    and B: "stored w V b = Some fb" "distinct (map fst fb)" "map_of fb g = Some (Ref U a)"
    and ne: "(V, b) \<noteq> (U, a)"
  shows "\<exists>w' d' fb'.
           resolve sch w dA [\<lparr>segments = [f, g], projection = None\<rparr>] = (w', Inr d') \<and>
           map_of (doc_fields d') f = Some (Expanded V b fb') \<and>
           map_of fb' g = Some (AlreadyExpanding U a) \<and>
           lookups w' = lookups w @ [(V, [b])]"
proof -
  define p where "p = \<lparr>segments = [f, g], projection = None\<rparr>"
  have valid: "valid_path sch (doc_coll dA) [f, g]"
    using sch A(1) by simp
  \<comment> \<open>first level: B is looked up and put in the place of the reference\<close>
  have refs1: "collect_doc [f] dA = [(V, b)]"
    using A ne by (simp add: collect_field_distinct)
  have b1: "batches [(V, b)] = [(V, [b])]"
    by (simp add: batches_def)
  define w1 where "w1 = fst (fetch w [(V, [b])])"
  define res1 where "res1 = map_of (snd (fetch w [(V, [b])]))"
  define d1 where "d1 = splice_doc None res1 [f] dA"
  have "map_of (snd (fetch w (batches [(V, b)]))) (V, b) = Some (stored w V b)"
    by (rule found_lookup) simp
  then have res1: "res1 (V, b) = Some (Some fb)"
    by (simp only: b1 res1_def B(1))
  have lvl1: "expand_level None [f] (w, dA) = (w1, d1)"
    by (simp only: expand_level_eq fst_conv snd_conv refs1 b1 w1_def res1_def d1_def)
  have fields1: "doc_fields d1 = map_field f (splice_at None res1 [] [(U, a)]) (doc_fields dA)"
    by (simp add: d1_def A)
  have d1: "doc_coll d1 = U" "doc_id d1 = a" "distinct (map fst (doc_fields d1))"
    using A by (simp_all add: d1_def map_field_keys)
  have "splice_at None res1 [] [(U, a)] (Ref V b) = Expanded V b fb"
    using ne res1 by (simp add: project_def)
  then have at1: "map_of (doc_fields d1) f = Some (Expanded V b fb)"
    by (simp only: fields1 map_of_map_field A(4) option.map)
  \<comment> \<open>second level: the reference back to A is on the chain, nothing is looked up\<close>
  have "collect [g] [(U, a)] (Expanded V b fb) = []"
    using B by (simp add: collect_field_distinct)
  then have refs2: "collect_doc [f, g] d1 = []"
    by (simp only: collect_doc.simps collect_field_distinct [OF d1(3) at1] d1(1,2))
  define d2 where "d2 = splice_doc None Map.empty [f, g] d1"
  have "fetch w1 (batches []) = (w1, [])"
    by (simp add: batches_def)
  then have lvl2: "expand_level None [f, g] (w1, d1) = (w1, d2)"
    by (simp only: expand_level_eq fst_conv snd_conv refs2 d2_def map_of.simps)
  define fb' where "fb' = map_field g (splice_at None Map.empty [] [(V, b), (U, a)]) fb"
  have fields2: "doc_fields d2 = map_field f (splice_at None Map.empty [g] [(U, a)]) (doc_fields d1)"
    by (simp add: d2_def d1)
  have "splice_at None Map.empty [g] [(U, a)] (Expanded V b fb) = Expanded V b fb'"
    by (simp add: fb'_def)
  then have at2: "map_of (doc_fields d2) f = Some (Expanded V b fb')"
    by (simp only: fields2 map_of_map_field at1 option.map)
  have "splice_at None Map.empty [] [(V, b), (U, a)] (Ref U a) = AlreadyExpanding U a"
    by simp
  then have marker: "map_of fb' g = Some (AlreadyExpanding U a)"
    by (simp only: fb'_def map_of_map_field B(3) option.map)
  have "expand_from None [] [f, g] (w, dA) = (w1, d2)"
    by (simp add: lvl1 lvl2 del: expand_level_eq)
  then have "fold resolve_path [p] (w, dA) = (w1, d2)"
    by (simp add: resolve_path_def p_def)
  then have "resolve sch w dA [p] = (w1, Inr d2)"
    using valid by (simp add: resolve_def p_def del: valid_path.simps)
  moreover have "lookups w1 = lookups w @ [(V, [b])]"
    unfolding w1_def by (rule fetch_lookups)
  ultimately show ?thesis
    using at2 marker unfolding p_def by blast
qed



section \<open>The Reference Resolver: unknown paths\<close>

lemma unknown_field_invalid: "sch c s = None \<Longrightarrow> \<not> valid_path sch c (s # rest)"
  by simp

text \<open>
  C7: when one of the requested paths does not resolve (it is empty, or a segment names
  a field that is not declared a reference), the whole call fails with
  \<open>ResolutionError\<close>: no document is returned, expanded or not, no lookup is issued
  and the stored documents are untouched.
\<close>

theorem resolve_aborts_on_unknown_path:
  assumes "p \<in> set paths" and "\<not> valid_path sch (doc_coll d) (segments p)"
  shows "resolve sch w d paths = (w, Inl ResolutionError)"
  using assms by (auto simp: resolve_def list_all_iff)

theorem resolve_aborts_on_unknown_path_witness:
  "\<not> valid_path example_schema (doc_coll user1) [''likes''] \<and>
   resolve example_schema blog user1
     [\<lparr>segments = [''posts''], projection = None\<rparr>, \<lparr>segments = [''likes''], projection = None\<rparr>]
   = (blog, Inl ResolutionError)"
  using resolve_aborts_on_unknown_path
    [of "\<lparr>segments = [''likes''], projection = None\<rparr>"
        "[\<lparr>segments = [''posts''], projection = None\<rparr>, \<lparr>segments = [''likes''], projection = None\<rparr>]"
        example_schema user1 blog]
  by (simp add: example_schema_def user1_def)

end
